theory Spec2Isabelle
  imports Main
begin

section \<open>Python strings\<close>

text \<open>
  A Python \<^verbatim>\<open>str\<close> is a sequence of Unicode code points and \<^verbatim>\<open>len\<close> counts code
  points, so a string is modelled as a list of code points (natural numbers).
  \<open>ustr\<close> turns an ASCII literal of Isabelle into such a list.
\<close>

type_synonym pychar = nat
type_synonym pystr = "pychar list"

definition ustr :: "string \<Rightarrow> pystr" where
  "ustr s = map of_char s"

text \<open>
  The whitespace class of CPython (\<^verbatim>\<open>Py_UNICODE_ISSPACE\<close>). It is what \<^verbatim>\<open>\s\<close> matches in
  a \<^verbatim>\<open>str\<close> pattern of the \<^verbatim>\<open>re\<close> module and what \<^verbatim>\<open>str.strip()\<close> removes:
  TAB, LF, VT, FF, CR, the separators 0x1C..0x1F, SPACE, NEL, NBSP and the
  Unicode space separators.
\<close>

definition is_space :: "pychar \<Rightarrow> bool" where
  "is_space c =
     (c \<in> {9, 10, 11, 12, 13, 28, 29, 30, 31, 32, 133, 160, 5760, 8232, 8233, 8239, 8287, 12288}
      \<or> (8192 \<le> c \<and> c \<le> 8202))"

text \<open>The character class \<^verbatim>\<open>[.!?]\<close> of the sentence pattern.\<close>

definition is_punct :: "pychar \<Rightarrow> bool" where
  "is_punct c = (c = 46 \<or> c = 33 \<or> c = 63)"

text \<open>\<^verbatim>\<open>str.strip()\<close>: whitespace is dropped from the left end, then from the right end.\<close>

definition lstrip :: "pystr \<Rightarrow> pystr" where
  "lstrip s = dropWhile is_space s"

definition rstrip :: "pystr \<Rightarrow> pystr" where
  "rstrip s = rev (dropWhile is_space (rev s))"

definition strip :: "pystr \<Rightarrow> pystr" where
  "strip s = rstrip (lstrip s)"

text \<open>\<^verbatim>\<open>" ".join(xs)\<close>: the strings of a list with one space between neighbours.\<close>

fun join_sp :: "pystr list \<Rightarrow> pystr" where
  "join_sp [] = []"
| "join_sp [s] = s"
| "join_sp (s # r # rs) = s @ 32 # join_sp (r # rs)"

section \<open>clean_text\<close>

text \<open>
  \<^verbatim>\<open>re.sub(r'\s+', ' ', text)\<close>: scanning from the left, every maximal run of whitespace
  (the quantifier is greedy) is replaced by one space; all other characters are kept.
\<close>

function sub_ws :: "pystr \<Rightarrow> pystr" where
  "sub_ws [] = []"
| "sub_ws (c # cs) =
     (if is_space c then 32 # sub_ws (dropWhile is_space cs) else c # sub_ws cs)"
  by pat_completeness auto
termination
  by (relation "measure length") (auto simp: le_imp_less_Suc length_dropWhile_le)

definition clean_text :: "pystr \<Rightarrow> pystr" where
  "clean_text text = strip (sub_ws text)"

text \<open>Normalized text is text that \<open>clean_text\<close> leaves as it is.\<close>

definition normalized :: "pystr \<Rightarrow> bool" where
  "normalized t = (clean_text t = t)"

section \<open>split_text_into_sections\<close>

text \<open>
  \<^verbatim>\<open>re.split(r'(?<=[.!?])\s+', text)\<close>: a match starts at a whitespace character whose
  left neighbour is one of \<^verbatim>\<open>. ! ?\<close> and takes the whole whitespace run; the pieces between
  the matches are returned, the empty piece after a match at the end of the text
  included. The empty text has no match and gives the one piece \<^verbatim>\<open>''\<close>. The result
  is never the empty list, so the first branch of the \<open>case\<close> below is never taken.
\<close>

function re_split :: "pystr \<Rightarrow> pystr list" where
  "re_split [] = [[]]"
| "re_split [c] = [[c]]"
| "re_split (c # d # cs) =
     (if is_punct c \<and> is_space d then [c] # re_split (dropWhile is_space cs)
      else (case re_split (d # cs) of [] \<Rightarrow> [[c]] | p # ps \<Rightarrow> (c # p) # ps))"
  by pat_completeness auto
termination
  by (relation "measure length") (auto simp: le_imp_less_Suc length_dropWhile_le le_SucI)

definition max_chars :: int where
  "max_chars = 4096"

text \<open>
  The body of the loop over the sentences. The state is the pair of \<^verbatim>\<open>sections\<close> and
  \<^verbatim>\<open>current_section\<close>; a string is true in a condition when it is not empty.
\<close>

definition section_step :: "int \<Rightarrow> pystr list \<times> pystr \<Rightarrow> pystr \<Rightarrow> pystr list \<times> pystr" where
  "section_step chars_per_section st sentence =
     (case st of (sections, current_section) \<Rightarrow>
        let potential_length =
              int (length current_section) + int (length sentence)
                + (if current_section \<noteq> [] then 1 else 0)
        in if potential_length > chars_per_section \<and> current_section \<noteq> [] then
             if potential_length \<le> max_chars then
               (sections @
                  [strip (if current_section \<noteq> [] then current_section @ [32] @ sentence
                          else sentence)],
                [])
             else (sections @ [strip current_section], sentence)
           else
             (sections,
              if current_section \<noteq> [] then current_section @ [32] @ sentence else sentence))"

text \<open>After the loop, what is left in \<^verbatim>\<open>current_section\<close> becomes the final section.\<close>

definition final_section :: "pystr list \<times> pystr \<Rightarrow> pystr list" where
  "final_section st =
     (case st of (sections, current_section) \<Rightarrow>
        if current_section \<noteq> [] then sections @ [strip current_section] else sections)"

definition split_text_into_sections :: "pystr \<Rightarrow> int \<Rightarrow> pystr list" where
  "split_text_into_sections text chars_per_section =
     final_section (foldl (section_step chars_per_section) ([], []) (re_split text))"

section \<open>save_sections_to_files\<close>

text \<open>\<^verbatim>\<open>str(n)\<close> for a non-negative integer: its decimal digits.\<close>

function str_nat :: "nat \<Rightarrow> pystr" where
  "str_nat n = (if n < 10 then [48 + n] else str_nat (n div 10) @ [48 + n mod 10])"
  by pat_completeness auto
termination
  by (relation "measure id") auto

declare str_nat.simps [simp del]

text \<open>
  \<^verbatim>\<open>str.zfill(width)\<close>: a string of at least \<^verbatim>\<open>width\<close> characters is returned as it is;
  a shorter one gets zeros on the left, after a leading sign if there is one.
\<close>

definition zfill :: "nat \<Rightarrow> pystr \<Rightarrow> pystr" where
  "zfill width s =
     (if width \<le> length s then s
      else if s \<noteq> [] \<and> (hd s = 43 \<or> hd s = 45)
           then hd s # replicate (width - length s) 48 @ tl s
           else replicate (width - length s) 48 @ s)"

text \<open>
  \<^verbatim>\<open>os.path.join(a, b)\<close> of \<^verbatim>\<open>posixpath\<close>: an absolute \<^verbatim>\<open>b\<close> replaces \<^verbatim>\<open>a\<close>; otherwise
  \<^verbatim>\<open>b\<close> is appended, after a slash unless \<^verbatim>\<open>a\<close> is empty or ends with one.
\<close>

definition os_path_join :: "pystr \<Rightarrow> pystr \<Rightarrow> pystr" where
  "os_path_join a b =
     (if b \<noteq> [] \<and> hd b = 47 then b
      else if a = [] \<or> last a = 47 then a @ b
      else a @ 47 # b)"

definition section_filename :: "pystr \<Rightarrow> nat \<Rightarrow> nat \<Rightarrow> pystr" where
  "section_filename base_name digits i =
     base_name @ ustr ''_section_'' @ zfill digits (str_nat i) @ ustr ''.txt''"

text \<open>The number that a string of decimal digits denotes, leading zeros allowed.\<close>

definition dec_value :: "pystr \<Rightarrow> nat" where
  "dec_value s = foldl (\<lambda>v c. 10 * v + (c - 48)) 0 s"

section \<open>extract_text_from_pdf\<close>

text \<open>
  What the function reads from its surroundings: whether the path exists, the two
  module-level availability flags, and the two libraries. Opening a document gives
  its pages or raises; \<^verbatim>\<open>extract_text()\<close> of a page gives a string or \<^verbatim>\<open>None\<close>, or raises.
  \<open>'e\<close> is the type of the exceptions of the libraries.
\<close>

datatype 'e error = FileNotFoundError | ImportError | Propagated 'e

type_synonym 'e page = "'e + pystr option"

record 'e environment =
  path_exists :: "pystr \<Rightarrow> bool"
  PDFPLUMBER_AVAILABLE :: bool
  PYPDF2_AVAILABLE :: bool
  pdfplumber_open :: "pystr \<Rightarrow> 'e + 'e page list"
  pypdf2_reader :: "pystr \<Rightarrow> 'e + 'e page list"

text \<open>
  The body of the loop over the pages, the same for both libraries: a page whose
  extraction raises is skipped, a page without text adds nothing.
\<close>

definition page_step :: "pystr \<Rightarrow> 'e page \<Rightarrow> pystr" where
  "page_step text page =
     (case page of
        Inl e \<Rightarrow> text
      | Inr None \<Rightarrow> text
      | Inr (Some page_text) \<Rightarrow> if page_text \<noteq> [] then text @ page_text @ [10] else text)"

definition extract_text_with_pdfplumber :: "'e environment \<Rightarrow> pystr \<Rightarrow> 'e error + pystr" where
  "extract_text_with_pdfplumber env pdf_path =
     (case pdfplumber_open env pdf_path of
        Inl e \<Rightarrow> Inl (Propagated e)
      | Inr pages \<Rightarrow> Inr (foldl page_step [] pages))"

definition extract_text_with_pypdf2 :: "'e environment \<Rightarrow> pystr \<Rightarrow> 'e error + pystr" where
  "extract_text_with_pypdf2 env pdf_path =
     (case pypdf2_reader env pdf_path of
        Inl e \<Rightarrow> Inl (Propagated e)
      | Inr pages \<Rightarrow> Inr (foldl page_step [] pages))"

definition extract_text_from_pdf :: "'e environment \<Rightarrow> pystr \<Rightarrow> 'e error + pystr" where
  "extract_text_from_pdf env pdf_path =
     (if \<not> path_exists env pdf_path then Inl FileNotFoundError
      else if PDFPLUMBER_AVAILABLE env then extract_text_with_pdfplumber env pdf_path
      else if PYPDF2_AVAILABLE env then extract_text_with_pypdf2 env pdf_path
      else Inl ImportError)"

section \<open>The effects of save_sections_to_files\<close>

text \<open>
  The files are a map from paths to contents. Whether a call of the operating system
  raises is not decided by this map alone (permissions, directories, a full disk), so
  the three calls the function makes take their failures from the surroundings:
  \<^verbatim>\<open>os.makedirs(output_dir, exist_ok=True)\<close>, \<^verbatim>\<open>open(file_path, 'w', encoding='utf-8')\<close>
  and \<^verbatim>\<open>f.write(section)\<close> together with the closing of the file. Each gives the
  exception it raises, if any; a failing write also gives what the file is left
  holding (the file was opened for writing and so emptied). \<open>'e\<close> is the type of
  these exceptions.
\<close>

type_synonym filesystem = "pystr \<rightharpoonup> pystr"

record 'e os_env =
  makedirs_error :: "filesystem \<Rightarrow> pystr \<Rightarrow> 'e option"
  open_error :: "filesystem \<Rightarrow> pystr \<Rightarrow> 'e option"
  write_error :: "filesystem \<Rightarrow> pystr \<Rightarrow> pystr \<Rightarrow> ('e \<times> pystr) option"

text \<open>
  \<^verbatim>\<open>os.makedirs\<close> of the empty path always raises \<^verbatim>\<open>FileNotFoundError\<close> (\<^verbatim>\<open>mkdir('')\<close> fails
  and \<^verbatim>\<open>exist_ok\<close> only forgives an existing directory); any other path raises what
  the surroundings say, for instance when it names an existing regular file.
\<close>

definition os_makedirs :: "'e os_env \<Rightarrow> filesystem \<Rightarrow> pystr \<Rightarrow> 'e error option" where
  "os_makedirs env fs name =
     (if name = [] then Some FileNotFoundError
      else map_option Propagated (makedirs_error env fs name))"

text \<open>
  The loop over \<^verbatim>\<open>enumerate(sections, 1)\<close>. It returns the files it leaves behind and
  the exception that ended it, \<open>None\<close> when it ran to its end. An exception of \<^verbatim>\<open>open\<close> or
  of the write is not caught in the function, so it ends the loop: the files written
  before stay, the remaining sections are not written. The progress line printed after
  each file changes nothing.
\<close>

fun write_sections ::
  "'e os_env \<Rightarrow> pystr \<Rightarrow> pystr \<Rightarrow> nat \<Rightarrow> (nat \<times> pystr) list \<Rightarrow> filesystem
     \<Rightarrow> filesystem \<times> 'e error option" where
  "write_sections env output_dir base_name digits [] fs = (fs, None)"
| "write_sections env output_dir base_name digits ((i, section) # rest) fs =
     (let filename = section_filename base_name digits i;
          file_path = os_path_join output_dir filename
      in case open_error env fs file_path of
           Some e \<Rightarrow> (fs, Some (Propagated e))
         | None \<Rightarrow>
             (case write_error env fs file_path section of
                Some (e, left) \<Rightarrow> (fs(file_path \<mapsto> left), Some (Propagated e))
              | None \<Rightarrow>
                  write_sections env output_dir base_name digits rest
                    (fs(file_path \<mapsto> section))))"

definition save_sections_to_files ::
  "'e os_env \<Rightarrow> pystr list \<Rightarrow> pystr \<Rightarrow> pystr \<Rightarrow> filesystem
     \<Rightarrow> filesystem \<times> 'e error option" where
  "save_sections_to_files env sections output_dir base_name fs =
     (case os_makedirs env fs output_dir of
        Some e \<Rightarrow> (fs, Some e)
      | None \<Rightarrow>
          (let total_sections = length sections;
               digits = length (str_nat total_sections)
           in write_sections env output_dir base_name digits (enumerate 1 sections) fs))"

section \<open>Shapes of normalized text and of sentence lists\<close>

text \<open>
  \<open>good t\<close>: \<open>t\<close> is not empty, starts and ends with a character that is not
  whitespace, and its only whitespace is the single space between two such characters.
\<close>

fun good :: "pystr \<Rightarrow> bool" where
  "good [] = False"
| "good [c] = (\<not> is_space c)"
| "good (c # d # cs) = (\<not> is_space c \<and> (if is_space d then d = 32 \<and> good cs else good (d # cs)))"

text \<open>
  \<open>spaced s\<close>: the only whitespace of \<open>s\<close> is the space character, and no two
  whitespace characters are neighbours.
\<close>

fun spaced :: "pystr \<Rightarrow> bool" where
  "spaced [] = True"
| "spaced [c] = (is_space c \<longrightarrow> c = 32)"
| "spaced (c # d # cs) = ((is_space c \<longrightarrow> c = 32 \<and> \<not> is_space d) \<and> spaced (d # cs))"

text \<open>\<open>no_break s\<close>: no character of \<open>s\<close> is a sentence end followed by whitespace.\<close>

fun no_break :: "pystr \<Rightarrow> bool" where
  "no_break [] = True"
| "no_break [c] = True"
| "no_break (c # d # cs) = (\<not> (is_punct c \<and> is_space d) \<and> no_break (d # cs))"

definition tidy :: "pystr \<Rightarrow> bool" where
  "tidy s = (s \<noteq> [] \<and> \<not> is_space (hd s) \<and> \<not> is_space (last s) \<and> no_break s)"

text \<open>
  \<open>sent_ok ss\<close>: every sentence of the list is tidy and every sentence but the last
  ends with one of \<^verbatim>\<open>. ! ?\<close>.
\<close>

fun sent_ok :: "pystr list \<Rightarrow> bool" where
  "sent_ok [] = True"
| "sent_ok [s] = tidy s"
| "sent_ok (s # r # rs) = (tidy s \<and> is_punct (last s) \<and> sent_ok (r # rs))"

section \<open>Normalized text\<close>

lemma is_space_32 [simp]: "is_space 32"
  by (simp add: is_space_def)

lemma is_space_10 [simp]: "is_space 10"
  by (simp add: is_space_def)

lemma punct_not_space: "is_punct c \<Longrightarrow> \<not> is_space c"
  by (auto simp: is_punct_def is_space_def)

lemma not_punct_32 [simp]: "\<not> is_punct 32"
  by (simp add: is_punct_def)

lemma good_ends: "good t \<Longrightarrow> t \<noteq> [] \<and> \<not> is_space (hd t) \<and> \<not> is_space (last t)"
  by (induction t rule: good.induct) (auto split: if_splits)

lemma dropWhile_good: "good t \<Longrightarrow> dropWhile is_space t = t"
  using good_ends [of t] by (cases t) auto

lemma sub_ws_good: "good t \<Longrightarrow> sub_ws t = t"
proof (induction t rule: good.induct)
  case (3 c d cs)
  show ?case
  proof (cases "is_space d")
    case True
    with "3.prems" have g: "good cs" and d: "d = 32" and c: "\<not> is_space c" by auto
    from "3.IH"(1) [OF True g] have "sub_ws cs = cs" .
    with c d g show ?thesis by (simp add: dropWhile_good)
  next
    case False
    with "3.prems" have g: "good (d # cs)" and c: "\<not> is_space c" by auto
    from "3.IH"(2) [OF False g] c show ?thesis by simp
  qed
qed auto

lemma strip_id: "t \<noteq> [] \<Longrightarrow> \<not> is_space (hd t) \<Longrightarrow> \<not> is_space (last t) \<Longrightarrow> strip t = t"
proof -
  assume a: "t \<noteq> []" "\<not> is_space (hd t)" "\<not> is_space (last t)"
  then have l: "lstrip t = t" by (cases t) (auto simp: lstrip_def)
  from a have "dropWhile is_space (rev t) = rev t"
    by (cases "rev t") (auto simp: last_rev hd_rev)
  then have "rstrip t = t" by (simp add: rstrip_def)
  with l show ?thesis by (simp add: strip_def)
qed

lemma clean_text_good: "good t \<Longrightarrow> clean_text t = t"
  using good_ends [of t] by (simp add: clean_text_def sub_ws_good strip_id)

lemma spaced_Cons:
  "spaced (c # r) \<longleftrightarrow> (is_space c \<longrightarrow> c = 32 \<and> (r \<noteq> [] \<longrightarrow> \<not> is_space (hd r))) \<and> spaced r"
  by (cases r) auto

lemma sub_ws_Nil_iff [simp]: "sub_ws y = [] \<longleftrightarrow> y = []"
  by (cases y) auto

lemma hd_sub_ws: "y \<noteq> [] \<Longrightarrow> \<not> is_space (hd y) \<Longrightarrow> hd (sub_ws y) = hd y"
  by (cases y) auto

lemma spaced_sub_ws: "spaced (sub_ws s)"
proof (induction s rule: sub_ws.induct)
  case 1
  show ?case by simp
next
  case (2 c cs)
  show ?case
  proof (cases "is_space c")
    case True
    let ?y = "dropWhile is_space cs"
    have "?y \<noteq> [] \<Longrightarrow> \<not> is_space (hd (sub_ws ?y))"
      using hd_dropWhile [of is_space cs] by (simp add: hd_sub_ws)
    with True "2.IH"(1) show ?thesis by (simp add: spaced_Cons)
  next
    case False
    with "2.IH"(2) show ?thesis by (simp add: spaced_Cons)
  qed
qed

lemma spaced_append: "spaced (a @ b) \<Longrightarrow> spaced a \<and> spaced b"
proof (induction a)
  case Nil
  then show ?case by simp
next
  case (Cons c a)
  then show ?case by (cases a) (auto simp: spaced_Cons)
qed

lemma spaced_strip: "spaced x \<Longrightarrow> spaced (strip x)"
proof -
  assume x: "spaced x"
  have "x = takeWhile is_space x @ lstrip x" by (simp add: lstrip_def)
  with x have l: "spaced (lstrip x)" using spaced_append by metis
  have "rev (lstrip x) = takeWhile is_space (rev (lstrip x)) @ dropWhile is_space (rev (lstrip x))"
    by simp
  then have "lstrip x = rstrip (lstrip x) @ rev (takeWhile is_space (rev (lstrip x)))"
    unfolding rstrip_def by (metis rev_append rev_rev_ident)
  with l show ?thesis unfolding strip_def using spaced_append by metis
qed

lemma strip_ends: "strip x \<noteq> [] \<Longrightarrow> \<not> is_space (hd (strip x)) \<and> \<not> is_space (last (strip x))"
proof -
  assume n: "strip x \<noteq> []"
  let ?y = "lstrip x"
  from n have r: "dropWhile is_space (rev ?y) \<noteq> []" by (simp add: strip_def rstrip_def)
  then have y: "?y \<noteq> []" by auto
  have l: "\<not> is_space (last (strip x))"
    using hd_dropWhile [OF r] r by (simp add: strip_def rstrip_def last_rev)
  from y have h: "\<not> is_space (hd ?y)" unfolding lstrip_def by (rule hd_dropWhile)
  from y obtain a ys where ay: "?y = a # ys" by (cases ?y) auto
  with h have "\<not> is_space a" by simp
  then have "dropWhile is_space (rev ys @ [a]) = dropWhile is_space (rev ys) @ [a]"
    by (simp add: dropWhile_append3)
  with ay have "strip x = a # rev (dropWhile is_space (rev ys))"
    by (simp add: strip_def rstrip_def)
  with h ay l show ?thesis by simp
qed

lemma spaced_good: "spaced x \<Longrightarrow> x \<noteq> [] \<Longrightarrow> \<not> is_space (hd x) \<Longrightarrow> \<not> is_space (last x) \<Longrightarrow> good x"
proof (induction x rule: good.induct)
  case (3 c d cs)
  show ?case
  proof (cases "is_space d")
    case True
    with "3.prems" have d: "d = 32" and cs: "cs \<noteq> []"
      by (auto simp: spaced_Cons split: if_splits)
    with "3.prems" True have "spaced cs" "\<not> is_space (hd cs)" "\<not> is_space (last cs)"
      by (auto simp: spaced_Cons)
    with "3.IH"(1) [OF True] cs have "good cs" by simp
    with "3.prems" d show ?thesis by simp
  next
    case False
    with "3.prems" "3.IH"(2) show ?thesis by (auto simp: spaced_Cons)
  qed
qed auto

lemma clean_text_shape: "clean_text s = [] \<or> good (clean_text s)"
  using spaced_good [of "clean_text s"] strip_ends [of "sub_ws s"] spaced_strip [OF spaced_sub_ws, of s]
  by (auto simp: clean_text_def)

lemma clean_text_Nil: "clean_text [] = []"
  by (simp add: clean_text_def strip_def lstrip_def rstrip_def)

lemma clean_text_fixpoint: "clean_text (clean_text s) = clean_text s"
  using clean_text_shape [of s] by (auto simp: clean_text_good clean_text_Nil)

lemma normalized_iff: "normalized t \<longleftrightarrow> t = [] \<or> good t"
  using clean_text_shape [of t] by (auto simp: normalized_def clean_text_good clean_text_Nil)

lemma normalized_clean_text: "normalized (clean_text s)"
  by (simp add: normalized_def clean_text_fixpoint)

lemma spaced_set: "spaced r \<Longrightarrow> c \<in> set r \<Longrightarrow> is_space c \<Longrightarrow> c = 32"
  by (induction r rule: spaced.induct) auto

lemma spaced_adjacent: "spaced r \<Longrightarrow> Suc i < length r \<Longrightarrow> \<not> (is_space (r ! i) \<and> is_space (r ! Suc i))"
proof (induction r arbitrary: i rule: spaced.induct)
  case (3 c d cs)
  then show ?case by (cases i) auto
qed auto

section \<open>Sentences\<close>

lemma re_split_not_Nil [simp]: "re_split t \<noteq> []"
  by (induction t rule: re_split.induct) (auto split: list.splits)

lemma re_split_no_break: "no_break s \<Longrightarrow> re_split s = [s]"
  by (induction s rule: no_break.induct) auto

lemma re_split_sentence:
  "s \<noteq> [] \<Longrightarrow> no_break s \<Longrightarrow> is_punct (last s) \<Longrightarrow> u \<noteq> [] \<Longrightarrow> \<not> is_space (hd u)
     \<Longrightarrow> re_split (s @ 32 # u) = s # re_split u"
proof (induction s rule: no_break.induct)
  case 1
  then show ?case by simp
next
  case (2 c)
  then have "dropWhile is_space u = u" by (cases u) auto
  with 2 show ?case by simp
next
  case (3 c d cs)
  then show ?case by simp
qed

lemma join_sp_Cons: "r \<noteq> [] \<Longrightarrow> join_sp (s # r) = s @ 32 # join_sp r"
  by (cases r) auto

lemma join_sp_Nil_iff: "[] \<notin> set x \<Longrightarrow> join_sp x = [] \<longleftrightarrow> x = []"
  by (induction x rule: join_sp.induct) auto

lemma sent_ok_tidy: "sent_ok x \<Longrightarrow> s \<in> set x \<Longrightarrow> tidy s"
  by (induction x rule: sent_ok.induct) auto

lemma sent_ok_no_Nil: "sent_ok x \<Longrightarrow> [] \<notin> set x"
  using sent_ok_tidy [of x "[]"] by (auto simp: tidy_def)

lemma join_sp_ends:
  "sent_ok x \<Longrightarrow> x \<noteq> [] \<Longrightarrow>
     join_sp x \<noteq> [] \<and> hd (join_sp x) = hd (hd x) \<and> last (join_sp x) = last (last x)"
  by (induction x rule: sent_ok.induct) (auto simp: tidy_def)

lemma strip_join_sp: "sent_ok x \<Longrightarrow> strip (join_sp x) = join_sp x"
proof (cases "x = []")
  case True
  then show ?thesis by (simp add: strip_def lstrip_def rstrip_def)
next
  case False
  assume ok: "sent_ok x"
  from False have "hd x \<in> set x" "last x \<in> set x" by auto
  with ok have "tidy (hd x)" "tidy (last x)" by (auto dest: sent_ok_tidy)
  with join_sp_ends [OF ok False] show ?thesis by (auto simp: tidy_def intro: strip_id)
qed

lemma re_split_join_sp: "sent_ok x \<Longrightarrow> x \<noteq> [] \<Longrightarrow> re_split (join_sp x) = x"
proof (induction x rule: sent_ok.induct)
  case 1
  then show ?case by simp
next
  case (2 s)
  then show ?case by (simp add: tidy_def re_split_no_break)
next
  case (3 s r rs)
  then have ok: "sent_ok (r # rs)" and s: "tidy s" "is_punct (last s)" by auto
  from join_sp_ends [OF ok] sent_ok_tidy [OF ok, of r]
  have "join_sp (r # rs) \<noteq> []" "\<not> is_space (hd (join_sp (r # rs)))"
    by (auto simp: tidy_def)
  with s have "re_split (s @ 32 # join_sp (r # rs)) = s # re_split (join_sp (r # rs))"
    by (intro re_split_sentence) (auto simp: tidy_def)
  with "3.IH" ok show ?case by simp
qed

lemma sent_ok_append: "sent_ok (a @ b) \<Longrightarrow> sent_ok a \<and> sent_ok b"
proof (induction a rule: sent_ok.induct)
  case 1
  then show ?case by simp
next
  case (2 s)
  then show ?case by (cases b) auto
next
  case (3 s r rs)
  then show ?case by auto
qed

lemma sent_ok_concat: "sent_ok (concat gs) \<Longrightarrow> x \<in> set gs \<Longrightarrow> sent_ok x"
  by (induction gs) (auto dest: sent_ok_append)

lemma no_break_Cons: "no_break (c # p) \<longleftrightarrow> (p \<noteq> [] \<longrightarrow> \<not> (is_punct c \<and> is_space (hd p))) \<and> no_break p"
  by (cases p) auto

lemma sent_ok_Cons: "sent_ok (s # r) \<longleftrightarrow> tidy s \<and> (r \<noteq> [] \<longrightarrow> is_punct (last s)) \<and> sent_ok r"
  by (cases r) auto

lemma tidy_Cons: "tidy p \<Longrightarrow> \<not> is_space c \<Longrightarrow> tidy (c # p)"
  by (auto simp: tidy_def no_break_Cons)

lemma good_sentences: "good t \<Longrightarrow> sent_ok (re_split t) \<and> join_sp (re_split t) = t"
proof (induction t rule: good.induct)
  case 1
  then show ?case by simp
next
  case (2 c)
  then show ?case by (simp add: tidy_def)
next
  case (3 c d cs)
  from "3.prems" have c: "\<not> is_space c" by simp
  show ?case
  proof (cases "is_space d")
    case True
    with "3.prems" have d: "d = 32" and g: "good cs" by auto
    from "3.IH"(1) [OF True g] have ih: "sent_ok (re_split cs)" "join_sp (re_split cs) = cs" by auto
    from g have dw: "dropWhile is_space cs = cs" by (rule dropWhile_good)
    from good_ends [OF g] obtain x xs where cs: "cs = x # xs" and x: "\<not> is_space x"
      by (cases cs) auto
    obtain p ps where r: "re_split cs = p # ps" using re_split_not_Nil [of cs] by (cases "re_split cs") auto
    show ?thesis
    proof (cases "is_punct c")
      case True
      with d dw have rs: "re_split (c # d # cs) = [c] # p # ps" by (simp add: r)
      have "tidy [c]" using c by (simp add: tidy_def)
      with ih True r have "sent_ok ([c] # p # ps)" "join_sp ([c] # p # ps) = c # d # cs"
        by (simp_all add: d)
      with rs show ?thesis by simp
    next
      case False
      have d2: "re_split (d # cs) = (d # p) # ps" using d cs r by simp
      with False have rs: "re_split (c # d # cs) = (c # d # p) # ps" by simp
      from ih r have tp: "tidy p" by (simp add: sent_ok_Cons)
      then have "tidy (c # d # p)" using c d False by (auto simp: tidy_def no_break_Cons)
      moreover from tp have "last (c # d # p) = last p" by (simp add: tidy_def)
      ultimately have "sent_ok ((c # d # p) # ps)" using ih r by (simp add: sent_ok_Cons)
      moreover have "join_sp ((c # d # p) # ps) = c # d # join_sp (p # ps)"
        by (cases ps) auto
      ultimately show ?thesis using rs ih r by simp
    qed
  next
    case False
    with "3.prems" have g: "good (d # cs)" by simp
    from "3.IH"(2) [OF False g] have ih: "sent_ok (re_split (d # cs))" "join_sp (re_split (d # cs)) = d # cs" by auto
    obtain p ps where r: "re_split (d # cs) = p # ps"
      using re_split_not_Nil [of "d # cs"] by (cases "re_split (d # cs)") auto
    with False have rs: "re_split (c # d # cs) = (c # p) # ps" by simp
    from ih r have tp: "tidy p" by (simp add: sent_ok_Cons)
    then have "tidy (c # p)" using c by (rule tidy_Cons)
    moreover from tp have "last (c # p) = last p" by (simp add: tidy_def)
    ultimately have "sent_ok ((c # p) # ps)" using ih r by (simp add: sent_ok_Cons)
    moreover have "join_sp ((c # p) # ps) = c # join_sp (p # ps)"
      by (cases ps) auto
    ultimately show ?thesis using rs ih r by simp
  qed
qed

section \<open>The loop over the sentences\<close>

lemma join_sp_snoc: "join_sp (g @ [s]) = (if g = [] then s else join_sp g @ 32 # s)"
  by (induction g rule: join_sp.induct) auto

lemma step_groups:
  assumes "sent_ok (g @ [s])"
  shows "section_step T (secs, join_sp g) s =
     (if int (length (join_sp (g @ [s]))) > T \<and> g \<noteq> [] then
        if int (length (join_sp (g @ [s]))) \<le> 4096 then (secs @ [join_sp (g @ [s])], [])
        else (secs @ [join_sp g], s)
      else (secs, join_sp (g @ [s])))"
proof (cases "g = []")
  case True
  then show ?thesis by (simp add: section_step_def)
next
  case False
  from assms have g: "sent_ok g" by (auto dest: sent_ok_append)
  with False have e: "join_sp g \<noteq> []" by (simp add: join_sp_Nil_iff sent_ok_no_Nil)
  have j: "join_sp (g @ [s]) = join_sp g @ [32] @ s" using False by (simp add: join_sp_snoc)
  have s1: "strip (join_sp g @ [32] @ s) = join_sp g @ [32] @ s"
    using strip_join_sp [OF assms] unfolding j .
  have s2: "strip (join_sp g) = join_sp g" using g by (rule strip_join_sp)
  have l: "int (length (join_sp g @ [32] @ s)) = int (length (join_sp g)) + int (length s) + 1"
    by simp
  show ?thesis
    unfolding j l section_step_def max_chars_def using e False s1 s2 by simp
qed

lemma loop_groups:
  "sent_ok (g @ ss) \<Longrightarrow> g = [] \<or> length g = 1 \<or> int (length (join_sp g)) \<le> T \<Longrightarrow>
   \<exists>gs. final_section (foldl (section_step T) (secs, join_sp g) ss) = secs @ map join_sp gs
        \<and> concat gs = g @ ss \<and> [] \<notin> set gs
        \<and> (\<forall>x\<in>set gs. length x = 1 \<or> int (length (join_sp x)) \<le> max T 4096)"
proof (induction ss arbitrary: secs g)
  case Nil
  then have g: "sent_ok g" by simp
  then have e: "join_sp g = [] \<longleftrightarrow> g = []" by (simp add: join_sp_Nil_iff sent_ok_no_Nil)
  show ?case
  proof (cases "g = []")
    case True
    then have "final_section (foldl (section_step T) (secs, join_sp g) []) = secs @ map join_sp []"
      by (simp add: final_section_def)
    with True show ?thesis by (intro exI [of _ "[]"]) simp
  next
    case False
    with e strip_join_sp [OF g]
    have "final_section (foldl (section_step T) (secs, join_sp g) []) = secs @ map join_sp [g]"
      by (simp add: final_section_def)
    with False Nil.prems(2) show ?thesis by (intro exI [of _ "[g]"]) auto
  qed
next
  case (Cons s ss)
  let ?h = "g @ [s]"
  let ?pot = "int (length (join_sp ?h))"
  from Cons.prems(1) have all: "sent_ok (?h @ ss)" by simp
  from sent_ok_append [OF all] have h: "sent_ok ?h" and rest: "sent_ok ss" by simp_all
  from Cons.prems(1) have sss: "sent_ok ([s] @ ss)" using sent_ok_append [of g "s # ss"] by simp
  note st = step_groups [OF h, of T secs]
  show ?case
  proof (cases "?pot > T \<and> g \<noteq> []")
    case False
    then have inv: "?h = [] \<or> length ?h = 1 \<or> ?pot \<le> T" by auto
    have "section_step T (secs, join_sp g) s = (secs, join_sp ?h)"
      by (simp only: st False if_False simp_thms)
    with Cons.IH [OF all inv, of secs] show ?thesis by simp
  next
    case over: True
    show ?thesis
    proof (cases "?pot \<le> 4096")
      case True
      have "sent_ok ([] @ ss)" using rest by simp
      from Cons.IH [OF this, of "secs @ [join_sp ?h]"]
      obtain gs where gs: "final_section (foldl (section_step T) (secs @ [join_sp ?h], join_sp []) ss)
            = (secs @ [join_sp ?h]) @ map join_sp gs"
          "concat gs = ss" "[] \<notin> set gs"
          "\<forall>x\<in>set gs. length x = 1 \<or> int (length (join_sp x)) \<le> max T 4096"
        by auto
      have "section_step T (secs, join_sp g) s = (secs @ [join_sp ?h], [])"
        by (simp only: st over True if_True simp_thms)
      then have "foldl (section_step T) (secs, join_sp g) (s # ss)
              = foldl (section_step T) (secs @ [join_sp ?h], join_sp []) ss"
        by simp
      with gs True show ?thesis by (intro exI [of _ "?h # gs"]) auto
    next
      case False
      have "[s] = [] \<or> length [s] = 1 \<or> int (length (join_sp [s])) \<le> T" by simp
      from Cons.IH [OF sss this, of "secs @ [join_sp g]"]
      obtain gs where gs: "final_section (foldl (section_step T) (secs @ [join_sp g], join_sp [s]) ss)
            = (secs @ [join_sp g]) @ map join_sp gs"
          "concat gs = [s] @ ss" "[] \<notin> set gs"
          "\<forall>x\<in>set gs. length x = 1 \<or> int (length (join_sp x)) \<le> max T 4096"
        by auto
      have "section_step T (secs, join_sp g) s = (secs @ [join_sp g], s)"
        by (simp only: st over False if_True if_False simp_thms)
      then have "foldl (section_step T) (secs, join_sp g) (s # ss)
              = foldl (section_step T) (secs @ [join_sp g], join_sp [s]) ss"
        by simp
      with gs over Cons.prems(2) show ?thesis by (intro exI [of _ "g # gs"]) auto
    qed
  qed
qed

lemma sections_groups:
  assumes "good t"
  shows "\<exists>gs. split_text_into_sections t T = map join_sp gs \<and> concat gs = re_split t
           \<and> [] \<notin> set gs \<and> (\<forall>x\<in>set gs. length x = 1 \<or> int (length (join_sp x)) \<le> max T 4096)"
proof -
  from good_sentences [OF assms] have "sent_ok ([] @ re_split t)" by simp
  from loop_groups [OF this, of T "[]"] show ?thesis
    by (simp add: split_text_into_sections_def)
qed

lemma sections_Nil: "split_text_into_sections [] T = []"
  by (simp add: split_text_into_sections_def section_step_def final_section_def)

section \<open>Properties of the sections\<close>

lemmas eval_defs = split_text_into_sections_def final_section_def section_step_def ustr_def
  is_space_def is_punct_def max_chars_def strip_def lstrip_def rstrip_def clean_text_def
  normalized_def

lemma join_sp_append: "x \<noteq> [] \<Longrightarrow> y \<noteq> [] \<Longrightarrow> join_sp (x @ y) = join_sp x @ 32 # join_sp y"
  by (induction x rule: join_sp.induct) (auto simp: join_sp_Cons)

lemma join_sp_concat: "[] \<notin> set gs \<Longrightarrow> join_sp (map join_sp gs) = join_sp (concat gs)"
proof (induction gs)
  case Nil
  then show ?case by simp
next
  case (Cons x gs)
  show ?case
  proof (cases "gs = []")
    case True
    then show ?thesis by simp
  next
    case False
    then obtain y ys where "gs = y # ys" by (cases gs) auto
    with Cons.prems have "concat gs \<noteq> []" "x \<noteq> []" by auto
    with Cons False show ?thesis by (simp add: join_sp_Cons join_sp_append)
  qed
qed

text \<open>
  Claim C1, for text that is not empty. When the sections of a normalized, non-empty text
  are split again by the sentence rule and the sentence lists are put together in the
  order of the sections, the result is the list of the sentences of the whole text:
  no sentence is lost, repeated or moved, and each one lies in exactly one section.
\<close>

theorem sentences_preserved:
  assumes "normalized t" and "t \<noteq> []"
  shows "concat (map re_split (split_text_into_sections t T)) = re_split t"
proof -
  from assms have g: "good t" by (simp add: normalized_iff)
  from sections_groups [OF g, of T] obtain gs where
    gs: "split_text_into_sections t T = map join_sp gs" "concat gs = re_split t" "[] \<notin> set gs"
    by blast
  from good_sentences [OF g] gs(2) have ok: "sent_ok (concat gs)" by simp
  have "map re_split (map join_sp gs) = gs"
  proof -
    have "\<And>x. x \<in> set gs \<Longrightarrow> re_split (join_sp x) = x"
      using sent_ok_concat [OF ok] gs(3) by (metis re_split_join_sp)
    then show ?thesis by (simp add: map_idI)
  qed
  with gs show ?thesis by simp
qed

theorem sentences_preserved_witness:
  "normalized (ustr ''A. B. C.'') \<and> ustr ''A. B. C.'' \<noteq> []
     \<and> split_text_into_sections (ustr ''A. B. C.'') 3 = [ustr ''A. B.'', ustr ''C.'']
     \<and> concat (map re_split (split_text_into_sections (ustr ''A. B. C.'') 3))
         = re_split (ustr ''A. B. C.'')"
proof -
  have n: "normalized (ustr ''A. B. C.'')" by (simp add: eval_defs)
  have e: "ustr ''A. B. C.'' \<noteq> []" by (simp add: ustr_def)
  have s: "split_text_into_sections (ustr ''A. B. C.'') 3 = [ustr ''A. B.'', ustr ''C.'']"
    by (simp add: eval_defs)
  from sentences_preserved [OF n e, of 3] n e s show ?thesis by simp
qed

text \<open>
  Claim C1 as it is stated covers the empty text, which is normalized. There the
  sentence rule gives the one empty sentence, while the function returns no section,
  so the sections hold no sentence at all.
\<close>

theorem sentences_empty_text_counterexample:
  "normalized [] \<and> concat (map re_split (split_text_into_sections [] 4090)) \<noteq> re_split []"
  by (simp add: eval_defs)

lemma good_letters: "good (65 # replicate n 65)"
  by (induction n) (simp_all add: is_space_def)

lemma no_break_letters: "no_break (65 # replicate n 65)"
  by (induction n) (simp_all add: is_punct_def)

lemma one_sentence_section:
  assumes "good t" and "no_break t"
  shows "split_text_into_sections t T = [t]"
proof -
  from good_ends [OF assms(1)] have "t \<noteq> []" and s: "strip t = t" by (simp_all add: strip_id)
  with re_split_no_break [OF assms(2)] show ?thesis
    by (simp add: split_text_into_sections_def section_step_def final_section_def)
qed

text \<open>
  Claim C2. With the default target of 4090 characters, every section of a normalized
  text has at most 4096 characters, except a section that is one single sentence of the
  text which alone is longer than 4096 characters.
\<close>

theorem section_size_bound:
  assumes "normalized t"
  shows "\<forall>c\<in>set (split_text_into_sections t 4090).
           length c \<le> 4096 \<or> (c \<in> set (re_split t) \<and> length c > 4096)"
proof (cases "t = []")
  case True
  then show ?thesis by (simp add: sections_Nil)
next
  case False
  with assms have g: "good t" by (simp add: normalized_iff)
  from sections_groups [OF g, of 4090] obtain gs where
    gs: "split_text_into_sections t 4090 = map join_sp gs" "concat gs = re_split t"
      "\<forall>x\<in>set gs. length x = 1 \<or> int (length (join_sp x)) \<le> max 4090 4096"
    by blast
  show ?thesis
  proof
    fix c assume "c \<in> set (split_text_into_sections t 4090)"
    with gs(1) obtain x where x: "x \<in> set gs" "c = join_sp x" by auto
    with gs(3) consider "length x = 1" | "int (length c) \<le> 4096" by auto
    then show "length c \<le> 4096 \<or> (c \<in> set (re_split t) \<and> length c > 4096)"
    proof cases
      case 1
      then obtain s where "x = [s]" by (cases x) auto
      with x have "c \<in> set x" "x \<in> set gs" by auto
      then have "c \<in> set (concat gs)" by (simp only: set_concat) blast
      with gs(2) show ?thesis by auto
    next
      case 2
      then show ?thesis by simp
    qed
  qed
qed

theorem section_size_bound_witness:
  "normalized (ustr ''A. B. C.'')
     \<and> split_text_into_sections (ustr ''A. B. C.'') 4090 = [ustr ''A. B. C.'']
     \<and> (length (ustr ''A. B. C.'') \<le> 4096
          \<or> (ustr ''A. B. C.'' \<in> set (re_split (ustr ''A. B. C.''))
              \<and> length (ustr ''A. B. C.'') > 4096))
     \<and> normalized (65 # replicate 4096 65)
     \<and> split_text_into_sections (65 # replicate 4096 65) 4090 = [65 # replicate 4096 65]
     \<and> 65 # replicate 4096 65 \<in> set (re_split (65 # replicate 4096 65))
     \<and> length (65 # replicate 4096 65) > 4096"
proof -
  have n: "normalized (ustr ''A. B. C.'')" by (simp add: eval_defs)
  have s: "split_text_into_sections (ustr ''A. B. C.'') 4090 = [ustr ''A. B. C.'']"
    by (simp add: eval_defs)
  let ?big = "65 # replicate 4096 (65::nat)"
  have bn: "normalized ?big" using good_letters [of 4096] by (simp only: normalized_iff simp_thms)
  have bs: "split_text_into_sections ?big 4090 = [?big]"
    using good_letters no_break_letters by (rule one_sentence_section)
  have br: "re_split ?big = [?big]" using no_break_letters by (rule re_split_no_break)
  have bl: "length ?big > 4096" by simp
  from section_size_bound [OF bn] bs br bl
  have "?big \<in> set (re_split ?big)" by (simp only: list.set insert_iff simp_thms)
  with section_size_bound [OF n] n s bn bs bl show ?thesis by simp
qed

text \<open>
  Claim C5. The empty text gives no section, and no section of a normalized text that
  is not empty has length 0.
\<close>

theorem sections_not_empty:
  "split_text_into_sections [] T = []
     \<and> (normalized t \<and> t \<noteq> [] \<longrightarrow> (\<forall>c\<in>set (split_text_into_sections t T). 0 < length c))"
proof (intro conjI impI)
  show "split_text_into_sections [] T = []" by (rule sections_Nil)
next
  assume "normalized t \<and> t \<noteq> []"
  then have g: "good t" by (auto simp: normalized_iff)
  from sections_groups [OF g, of T] obtain gs where
    gs: "split_text_into_sections t T = map join_sp gs" "concat gs = re_split t" "[] \<notin> set gs"
    by blast
  from good_sentences [OF g] gs(2) have ok: "sent_ok (concat gs)" by simp
  show "\<forall>c\<in>set (split_text_into_sections t T). 0 < length c"
  proof
    fix c assume "c \<in> set (split_text_into_sections t T)"
    with gs(1) obtain x where x: "x \<in> set gs" "c = join_sp x" by auto
    with gs(3) have "x \<noteq> []" by auto
    with join_sp_ends [OF sent_ok_concat [OF ok x(1)]] x(2) show "0 < length c" by simp
  qed
qed

theorem sections_not_empty_witness:
  "normalized (ustr ''Hi. Yo! Ok'') \<and> ustr ''Hi. Yo! Ok'' \<noteq> []
     \<and> split_text_into_sections (ustr ''Hi. Yo! Ok'') 2 = [ustr ''Hi. Yo!'', ustr ''Ok'']
     \<and> 0 < length (ustr ''Hi. Yo!'') \<and> 0 < length (ustr ''Ok'')"
proof -
  have n: "normalized (ustr ''Hi. Yo! Ok'') \<and> ustr ''Hi. Yo! Ok'' \<noteq> []" by (simp add: eval_defs)
  have s: "split_text_into_sections (ustr ''Hi. Yo! Ok'') 2 = [ustr ''Hi. Yo!'', ustr ''Ok'']"
    by (simp add: eval_defs)
  from sections_not_empty [of 2 "ustr ''Hi. Yo! Ok''"] n s show ?thesis by simp
qed

text \<open>
  Claim C10. For a normalized text that is not empty and every target size, the sections
  joined by single spaces are the text again.
\<close>

theorem sections_round_trip:
  assumes "normalized t" and "t \<noteq> []"
  shows "join_sp (split_text_into_sections t T) = t"
proof -
  from assms have g: "good t" by (simp add: normalized_iff)
  from sections_groups [OF g, of T] obtain gs where
    gs: "split_text_into_sections t T = map join_sp gs" "concat gs = re_split t" "[] \<notin> set gs"
    by blast
  then have "join_sp (split_text_into_sections t T) = join_sp (re_split t)"
    by (simp add: join_sp_concat)
  with good_sentences [OF g] show ?thesis by simp
qed

theorem sections_round_trip_witness:
  "normalized (ustr ''One. Two? Three'') \<and> ustr ''One. Two? Three'' \<noteq> []
     \<and> split_text_into_sections (ustr ''One. Two? Three'') 4 = [ustr ''One. Two?'', ustr ''Three'']
     \<and> join_sp (split_text_into_sections (ustr ''One. Two? Three'') 4) = ustr ''One. Two? Three''"
proof -
  have n: "normalized (ustr ''One. Two? Three'')" by (simp add: eval_defs)
  have e: "ustr ''One. Two? Three'' \<noteq> []" by (simp add: ustr_def)
  have s: "split_text_into_sections (ustr ''One. Two? Three'') 4
             = [ustr ''One. Two?'', ustr ''Three'']"
    by (simp add: eval_defs)
  from sections_round_trip [OF n e, of 4] n e s show ?thesis by simp
qed

text \<open>
  Claim C4 as it is stated: the text \<^verbatim>\<open>A. B. C.\<close> with a target of 5 characters would give
  the two sections \<^verbatim>\<open>A. B.\<close> and \<^verbatim>\<open>C.\<close>. The function does not return them.
\<close>

theorem scenario_two_sections_counterexample:
  "split_text_into_sections (ustr ''A. B. C.'') 5 \<noteq> [ustr ''A. B.'', ustr ''C.'']"
  by (simp add: eval_defs)

text \<open>
  Claim C4, amended. The limit of 4096 characters does not follow the target, so with
  a target of 5 the third sentence, which brings the section to 8 characters, still
  completes it: the text \<^verbatim>\<open>A. B. C.\<close> comes back as one section.
\<close>

theorem scenario_one_section:
  "split_text_into_sections (ustr ''A. B. C.'') 5 = [ustr ''A. B. C.'']"
  by (simp add: eval_defs)

text \<open>
  Claim C3 as it is stated: the hard cap is the target plus 6. With the target 0 the
  cap would be 6; the section \<^verbatim>\<open>A.\<close> and the sentence \<^verbatim>\<open>Bcdefgh.\<close> make 11 characters, more
  than 6, and the sentence is appended all the same.
\<close>

theorem hard_cap_follows_target_counterexample:
  "ustr ''A.'' \<noteq> []
     \<and> (0::int) < int (length (ustr ''A.'')) + int (length (ustr ''Bcdefgh.'')) + 1
     \<and> \<not> int (length (ustr ''A.'')) + int (length (ustr ''Bcdefgh.'')) + 1 \<le> 0 + 6
     \<and> section_step 0 ([], ustr ''A.'') (ustr ''Bcdefgh.'') = ([ustr ''A. Bcdefgh.''], [])
     \<and> split_text_into_sections (ustr ''A. Bcdefgh.'') 0 = [ustr ''A. Bcdefgh.'']"
  by (simp add: eval_defs)

text \<open>
  Claim C3, amended. The hard cap is 4096 for every target \<open>T\<close>. When the section is not
  empty and its length with the sentence (and the joining space) is above \<open>T\<close>, the
  sentence is appended and the section closed if that length is at most 4096;
  otherwise the section is closed without the sentence, which starts the next one.
\<close>

theorem hard_cap_fixed:
  assumes "current_section \<noteq> []"
    and "T < int (length current_section) + int (length sentence) + 1"
  shows "section_step T (sections, current_section) sentence =
     (if int (length current_section) + int (length sentence) + 1 \<le> 4096
      then (sections @ [strip (current_section @ [32] @ sentence)], [])
      else (sections @ [strip current_section], sentence))"
  using assms by (simp add: section_step_def max_chars_def)

theorem hard_cap_fixed_witness:
  "section_step 0 ([], ustr ''A.'') (ustr ''Bcdefgh.'') = ([ustr ''A. Bcdefgh.''], [])
     \<and> section_step 5000 ([], replicate 5000 65) [66] = ([strip (replicate 5000 65)], [66])"
proof -
  have a: "ustr ''A.'' \<noteq> []"
    and b: "(0::int) < int (length (ustr ''A.'')) + int (length (ustr ''Bcdefgh.'')) + 1"
    by (simp_all add: ustr_def)
  have c: "replicate 5000 (65::nat) \<noteq> []"
    and d: "(5000::int) < int (length (replicate 5000 (65::nat))) + int (length [66::nat]) + 1"
    by simp_all
  have e: "strip (ustr ''A.'' @ [32] @ ustr ''Bcdefgh.'') = ustr ''A. Bcdefgh.''"
    by (simp add: eval_defs)
  from hard_cap_fixed [OF a b, of "[]"] hard_cap_fixed [OF c d, of "[]"] e
  show ?thesis by (simp add: ustr_def)
qed

section \<open>Properties of clean_text\<close>

text \<open>
  Claim C6. \<open>clean_text\<close> is idempotent: cleaning a cleaned text changes nothing.
\<close>

theorem clean_text_idempotent: "clean_text (clean_text s) = clean_text s"
  by (rule clean_text_fixpoint)

text \<open>
  Claim C9. The result of \<open>clean_text\<close> has no newline and no whitespace character but
  the space; no two spaces are neighbours, and it neither starts nor ends with a space.
\<close>

theorem clean_text_whitespace:
  "10 \<notin> set (clean_text s)
     \<and> (\<forall>c\<in>set (clean_text s). is_space c \<longrightarrow> c = 32)
     \<and> (\<forall>i. Suc i < length (clean_text s)
            \<longrightarrow> \<not> (clean_text s ! i = 32 \<and> clean_text s ! Suc i = 32))
     \<and> (clean_text s \<noteq> [] \<longrightarrow> hd (clean_text s) \<noteq> 32 \<and> last (clean_text s) \<noteq> 32)"
proof -
  have sp: "spaced (clean_text s)"
    unfolding clean_text_def by (rule spaced_strip [OF spaced_sub_ws])
  have 1: "10 \<notin> set (clean_text s)"
    using spaced_set [OF sp, of 10] by auto
  have 2: "\<forall>c\<in>set (clean_text s). is_space c \<longrightarrow> c = 32"
    using spaced_set [OF sp] by blast
  have 3: "\<forall>i. Suc i < length (clean_text s)
            \<longrightarrow> \<not> (clean_text s ! i = 32 \<and> clean_text s ! Suc i = 32)"
    using spaced_adjacent [OF sp] is_space_32 by metis
  have 4: "clean_text s \<noteq> [] \<longrightarrow> hd (clean_text s) \<noteq> 32 \<and> last (clean_text s) \<noteq> 32"
    using strip_ends [of "sub_ws s"] is_space_32 unfolding clean_text_def by metis
  from 1 2 3 4 show ?thesis by blast
qed

theorem clean_text_whitespace_witness:
  "clean_text [32, 65, 10, 10, 9, 66, 46, 32] = [65, 32, 66, 46]
     \<and> 10 \<notin> set (clean_text [32, 65, 10, 10, 9, 66, 46, 32])
     \<and> hd (clean_text [32, 65, 10, 10, 9, 66, 46, 32]) \<noteq> 32
     \<and> last (clean_text [32, 65, 10, 10, 9, 66, 46, 32]) \<noteq> 32"
proof -
  have c: "clean_text [32, 65, 10, 10, 9, 66, 46, 32] = [65, 32, 66, 46]"
    by (simp add: eval_defs)
  then have n: "clean_text [32, 65, 10, 10, 9, 66, 46, 32] \<noteq> []" by simp
  from clean_text_whitespace [of "[32, 65, 10, 10, 9, 66, 46, 32]"] c n
  show ?thesis by simp
qed

section \<open>Errors of extract_text_from_pdf\<close>

text \<open>
  Claim C8. When the path does not exist the function raises \<^verbatim>\<open>FileNotFoundError\<close>,
  whatever the availability flags and the libraries are. When the path exists, the
  function raises its \<^verbatim>\<open>ImportError\<close> exactly when neither \<^verbatim>\<open>pdfplumber\<close> nor \<^verbatim>\<open>PyPDF2\<close>
  is available.
\<close>

theorem extract_errors:
  "(\<not> path_exists env p \<longrightarrow> extract_text_from_pdf env p = Inl FileNotFoundError)
     \<and> (path_exists env p \<longrightarrow>
          (extract_text_from_pdf env p = Inl ImportError
             \<longleftrightarrow> \<not> PDFPLUMBER_AVAILABLE env \<and> \<not> PYPDF2_AVAILABLE env))"
  by (auto simp: extract_text_from_pdf_def extract_text_with_pdfplumber_def
        extract_text_with_pypdf2_def split: sum.splits)

theorem extract_errors_witness:
  "extract_text_from_pdf
      \<lparr>path_exists = (\<lambda>p. False), PDFPLUMBER_AVAILABLE = True, PYPDF2_AVAILABLE = True,
       pdfplumber_open = (\<lambda>p. Inr []), pypdf2_reader = (\<lambda>p. Inr [])\<rparr> (ustr ''a.pdf'')
     = (Inl FileNotFoundError :: unit error + pystr)
   \<and> extract_text_from_pdf
      \<lparr>path_exists = (\<lambda>p. True), PDFPLUMBER_AVAILABLE = False, PYPDF2_AVAILABLE = False,
       pdfplumber_open = (\<lambda>p. Inr []), pypdf2_reader = (\<lambda>p. Inr [])\<rparr> (ustr ''a.pdf'')
     = (Inl ImportError :: unit error + pystr)
   \<and> extract_text_from_pdf
      \<lparr>path_exists = (\<lambda>p. True), PDFPLUMBER_AVAILABLE = False, PYPDF2_AVAILABLE = True,
       pdfplumber_open = (\<lambda>p. Inl ()),
       pypdf2_reader = (\<lambda>p. Inr [Inr (Some (ustr ''Hi.'')), Inl (), Inr None])\<rparr>
      (ustr ''a.pdf'')
     \<noteq> (Inl ImportError :: unit error + pystr)"
  using
    extract_errors [of "\<lparr>path_exists = (\<lambda>p. False), PDFPLUMBER_AVAILABLE = True,
       PYPDF2_AVAILABLE = True, pdfplumber_open = (\<lambda>p. Inr []),
       pypdf2_reader = (\<lambda>p. Inr [])\<rparr> :: unit environment" "ustr ''a.pdf''"]
    extract_errors [of "\<lparr>path_exists = (\<lambda>p. True), PDFPLUMBER_AVAILABLE = False,
       PYPDF2_AVAILABLE = False, pdfplumber_open = (\<lambda>p. Inr []),
       pypdf2_reader = (\<lambda>p. Inr [])\<rparr> :: unit environment" "ustr ''a.pdf''"]
    extract_errors [of "\<lparr>path_exists = (\<lambda>p. True), PDFPLUMBER_AVAILABLE = False,
       PYPDF2_AVAILABLE = True, pdfplumber_open = (\<lambda>p. Inl ()),
       pypdf2_reader = (\<lambda>p. Inr [Inr (Some (ustr ''Hi.'')), Inl (), Inr None])\<rparr>
       :: unit environment" "ustr ''a.pdf''"]
  by simp

section \<open>Files written by save_sections_to_files\<close>

lemma str_nat_digits: "set (str_nat n) \<subseteq> {48..57}"
proof (induction n rule: str_nat.induct)
  case (1 n)
  show ?case
  proof (cases "n < 10")
    case True
    then show ?thesis by (subst str_nat.simps) simp
  next
    case False
    have "48 + n mod 10 \<le> 57" by simp
    with False "1.IH" show ?thesis by (subst str_nat.simps) simp
  qed
qed

lemma str_nat_not_Nil: "str_nat n \<noteq> []"
  by (subst str_nat.simps) simp

lemma hd_str_nat: "hd (str_nat n) \<noteq> 43 \<and> hd (str_nat n) \<noteq> 45"
proof -
  have "hd (str_nat n) \<in> set (str_nat n)" using str_nat_not_Nil by simp
  with str_nat_digits [of n] have "hd (str_nat n) \<in> {48..57}" by blast
  then show ?thesis by auto
qed

lemma zfill_str_nat:
  "zfill d (str_nat i) = replicate (d - length (str_nat i)) 48 @ str_nat i"
  using hd_str_nat [of i] by (simp add: zfill_def)

lemma dec_value_snoc: "dec_value (s @ [c]) = 10 * dec_value s + (c - 48)"
  by (simp add: dec_value_def)

lemma dec_value_str_nat: "dec_value (str_nat n) = n"
proof (induction n rule: str_nat.induct)
  case (1 n)
  show ?case
  proof (cases "n < 10")
    case True
    then show ?thesis by (subst str_nat.simps) (simp add: dec_value_def)
  next
    case False
    with "1.IH" have "dec_value (str_nat (n div 10)) = n div 10" by simp
    with False show ?thesis by (subst str_nat.simps) (simp add: dec_value_snoc)
  qed
qed

lemma dec_value_zeros: "dec_value (replicate k 48 @ s) = dec_value s"
proof -
  have "foldl (\<lambda>v c. 10 * v + (c - 48)) 0 (replicate k (48::nat)) = (0::nat)"
    by (induction k) simp_all
  then show ?thesis by (simp add: dec_value_def)
qed

lemma length_str_nat_mono: "i \<le> n \<Longrightarrow> length (str_nat i) \<le> length (str_nat n)"
proof (induction n arbitrary: i rule: str_nat.induct)
  case (1 n)
  show ?case
  proof (cases "n < 10")
    case True
    with "1.prems" have "i < 10" by simp
    then have "length (str_nat i) = 1" by (subst str_nat.simps) simp
    moreover from True have "length (str_nat n) = 1" by (subst str_nat.simps) simp
    ultimately show ?thesis by simp
  next
    case False
    then have n: "length (str_nat n) = Suc (length (str_nat (n div 10)))"
      by (subst str_nat.simps) simp
    show ?thesis
    proof (cases "i < 10")
      case True
      then have "length (str_nat i) = 1" by (subst str_nat.simps) simp
      with n show ?thesis by simp
    next
      case i: False
      then have "length (str_nat i) = Suc (length (str_nat (i div 10)))"
        by (subst str_nat.simps) simp
      moreover from "1.prems" have "i div 10 \<le> n div 10" by (rule div_le_mono)
      ultimately show ?thesis using "1.IH" [OF False] n by simp
    qed
  qed
qed

lemma length_zfill_str_nat:
  "i \<le> n \<Longrightarrow> length (zfill (length (str_nat n)) (str_nat i)) = length (str_nat n)"
  using length_str_nat_mono [of i n] by (simp add: zfill_str_nat)

lemma zfill_digits: "set (zfill d (str_nat i)) \<subseteq> {48..57}"
  using str_nat_digits [of i] by (auto simp: zfill_str_nat)

lemma dec_value_zfill: "dec_value (zfill d (str_nat i)) = i"
  by (simp add: zfill_str_nat dec_value_zeros dec_value_str_nat)

lemma os_path_join_shape:
  "b \<noteq> [] \<Longrightarrow> \<exists>pre. \<forall>z. os_path_join a (b @ z) = pre @ b @ z"
proof -
  assume b: "b \<noteq> []"
  then have h: "\<And>z. hd (b @ z) = hd b" "\<And>z. b @ z \<noteq> []" by simp_all
  show ?thesis
  proof (cases "hd b = 47")
    case True
    with h have "\<forall>z. os_path_join a (b @ z) = [] @ b @ z" by (simp add: os_path_join_def)
    then show ?thesis by blast
  next
    case False
    show ?thesis
    proof (cases "a = [] \<or> last a = 47")
      case True
      with False h have "\<forall>z. os_path_join a (b @ z) = a @ b @ z"
        by (simp add: os_path_join_def)
      then show ?thesis by blast
    next
      case nt: False
      with False h have "\<forall>z. os_path_join a (b @ z) = (a @ [47]) @ b @ z"
        by (simp add: os_path_join_def)
      then show ?thesis by blast
    qed
  qed
qed

lemma section_path_inj:
  assumes "os_path_join out (section_filename base d i) = os_path_join out (section_filename base d j)"
  shows "i = j"
proof -
  let ?b = "base @ ustr ''_section_''"
  have ne: "?b \<noteq> []" by (simp add: ustr_def)
  from os_path_join_shape [OF ne, of out] obtain pre where
    pre: "\<And>z. os_path_join out (?b @ z) = pre @ ?b @ z" by blast
  have f: "\<And>k. section_filename base d k = ?b @ (zfill d (str_nat k) @ ustr ''.txt'')"
    by (simp add: section_filename_def)
  from assms have "pre @ ?b @ (zfill d (str_nat i) @ ustr ''.txt'')
                 = pre @ ?b @ (zfill d (str_nat j) @ ustr ''.txt'')"
    unfolding f pre .
  then have "zfill d (str_nat i) = zfill d (str_nat j)" by simp
  then have "dec_value (zfill d (str_nat i)) = dec_value (zfill d (str_nat j))" by simp
  then show ?thesis by (simp only: dec_value_zfill)
qed

lemma write_sections_Cons_ok:
  "snd (write_sections env out base d ((i, x) # rest) fs) = None \<Longrightarrow>
     write_sections env out base d ((i, x) # rest) fs
       = write_sections env out base d rest
           (fs(os_path_join out (section_filename base d i) \<mapsto> x))"
  by (auto simp: Let_def split: option.splits prod.splits)

lemma write_sections_no_error:
  assumes "\<And>fs p. open_error env fs p = None"
    and "\<And>fs p c. write_error env fs p c = None"
  shows "snd (write_sections env out base d ps fs) = None"
  using assms by (induction ps arbitrary: fs) (auto simp: Let_def)

lemma write_sections_other:
  "snd (write_sections env out base d (enumerate n xs) fs) = None \<Longrightarrow>
   (\<And>k. k < length xs \<Longrightarrow> p \<noteq> os_path_join out (section_filename base d (n + k))) \<Longrightarrow>
     fst (write_sections env out base d (enumerate n xs) fs) p = fs p"
proof (induction xs arbitrary: n fs)
  case Nil
  then show ?case by simp
next
  case (Cons x xs)
  let ?fs = "fs(os_path_join out (section_filename base d n) \<mapsto> x)"
  have en: "enumerate n (x # xs) = (n, x) # enumerate (Suc n) xs" by simp
  from Cons.prems(1)
  have eq: "write_sections env out base d (enumerate n (x # xs)) fs
              = write_sections env out base d (enumerate (Suc n) xs) ?fs"
    unfolding en by (rule write_sections_Cons_ok)
  with Cons.prems(1) have ok: "snd (write_sections env out base d (enumerate (Suc n) xs) ?fs) = None"
    by simp
  have "fst (write_sections env out base d (enumerate (Suc n) xs) ?fs) p = ?fs p"
  proof (rule Cons.IH [OF ok])
    fix k assume "k < length xs"
    then have "Suc k < length (x # xs)" by simp
    from Cons.prems(2) [OF this]
    show "p \<noteq> os_path_join out (section_filename base d (Suc n + k))" by simp
  qed
  moreover have "p \<noteq> os_path_join out (section_filename base d n)"
    using Cons.prems(2) [of 0] by simp
  ultimately show ?case unfolding eq by simp
qed

lemma write_sections_at:
  "snd (write_sections env out base d (enumerate n xs) fs) = None \<Longrightarrow> k < length xs \<Longrightarrow>
     fst (write_sections env out base d (enumerate n xs) fs)
       (os_path_join out (section_filename base d (n + k))) = Some (xs ! k)"
proof (induction xs arbitrary: n fs k)
  case Nil
  then show ?case by simp
next
  case (Cons x xs)
  let ?fs = "fs(os_path_join out (section_filename base d n) \<mapsto> x)"
  have en: "enumerate n (x # xs) = (n, x) # enumerate (Suc n) xs" by simp
  from Cons.prems(1)
  have eq: "write_sections env out base d (enumerate n (x # xs)) fs
              = write_sections env out base d (enumerate (Suc n) xs) ?fs"
    unfolding en by (rule write_sections_Cons_ok)
  with Cons.prems(1) have ok: "snd (write_sections env out base d (enumerate (Suc n) xs) ?fs) = None"
    by simp
  show ?case
  proof (cases k)
    case 0
    have "fst (write_sections env out base d (enumerate (Suc n) xs) ?fs)
            (os_path_join out (section_filename base d n))
          = ?fs (os_path_join out (section_filename base d n))"
    proof (rule write_sections_other [OF ok])
      fix j assume "j < length xs"
      have "n \<noteq> Suc n + j" by simp
      then show "os_path_join out (section_filename base d n)
                   \<noteq> os_path_join out (section_filename base d (Suc n + j))"
        using section_path_inj by blast
    qed
    with 0 show ?thesis unfolding eq by simp
  next
    case (Suc k')
    with Cons.prems(2) have "k' < length xs" by simp
    from Cons.IH [OF ok this]
    have ih: "fst (write_sections env out base d (enumerate (Suc n) xs) ?fs)
                (os_path_join out (section_filename base d (Suc n + k'))) = Some (xs ! k')" .
    show ?thesis unfolding eq Suc using ih by simp
  qed
qed

text \<open>
  Claim C7 as it is stated promises the \<open>N\<close> files for every call. A call with the empty
  output directory, which the command line can pass, raises in \<^verbatim>\<open>os.makedirs\<close> before
  the loop: there is one section and no file is written.
\<close>

theorem save_empty_directory_counterexample:
  "save_sections_to_files
      \<lparr>makedirs_error = (\<lambda>fs p. None), open_error = (\<lambda>fs p. None),
       write_error = (\<lambda>fs p c. None)\<rparr>
      [ustr ''x''] [] (ustr ''bk'') Map.empty
     = (Map.empty, Some (FileNotFoundError :: unit error))"
  by (simp add: save_sections_to_files_def os_makedirs_def)

text \<open>
  Claim C7, amended. When the call for \<open>N\<close> sections returns without an exception, it
  has written the \<open>N\<close> files \<^verbatim>\<open>{base_name}_section_{index}.txt\<close> of the output directory,
  one for each index from 1 to \<open>N\<close>. The index is written in decimal with zeros on the
  left, in exactly as many digits as \<open>N\<close> has; the file of index \<open>i\<close> holds section \<open>i\<close>;
  the \<open>N\<close> paths are different from each other, and no other path is touched.
\<close>

theorem section_files:
  assumes "snd (save_sections_to_files env sections output_dir base_name fs) = None"
  shows
  "let N = length sections;
       digits = length (str_nat N);
       idx = (\<lambda>i. zfill digits (str_nat i));
       path = (\<lambda>i. os_path_join output_dir
                     (base_name @ ustr ''_section_'' @ idx i @ ustr ''.txt''));
       fs' = fst (save_sections_to_files env sections output_dir base_name fs)
   in (\<forall>i\<in>{1..N}. length (idx i) = digits \<and> set (idx i) \<subseteq> {48..57} \<and> dec_value (idx i) = i
                      \<and> fs' (path i) = Some (sections ! (i - 1)))
      \<and> card (path ` {1..N}) = N
      \<and> (\<forall>p. p \<notin> path ` {1..N} \<longrightarrow> fs' p = fs p)"
proof -
  let ?N = "length sections"
  let ?d = "length (str_nat ?N)"
  let ?path = "\<lambda>i. os_path_join output_dir
                     (base_name @ ustr ''_section_'' @ zfill ?d (str_nat i) @ ustr ''.txt'')"
  let ?save = "save_sections_to_files env sections output_dir base_name fs"
  let ?loop = "write_sections env output_dir base_name ?d (enumerate 1 sections) fs"
  have p: "?path i = os_path_join output_dir (section_filename base_name ?d i)" for i
    by (simp add: section_filename_def)
  from assms have sv: "?save = ?loop"
    by (auto simp: save_sections_to_files_def split: option.splits)
  with assms have ok: "snd ?loop = None" by simp
  have inj: "inj_on ?path {1..?N}"
    unfolding p by (rule inj_onI) (rule section_path_inj)
  show ?thesis
    unfolding Let_def
  proof (intro conjI ballI allI impI)
    fix i assume i: "i \<in> {1..?N}"
    then have le: "i \<le> ?N" and k: "i - 1 < ?N" and e: "1 + (i - 1) = i" by auto
    show "length (zfill ?d (str_nat i)) = ?d" using le by (rule length_zfill_str_nat)
    show "set (zfill ?d (str_nat i)) \<subseteq> {48..57}" by (rule zfill_digits)
    show "dec_value (zfill ?d (str_nat i)) = i" by (rule dec_value_zfill)
    from write_sections_at [OF ok k]
    show "fst ?save (?path i) = Some (sections ! (i - 1))"
      unfolding p sv e .
  next
    from inj show "card (?path ` {1..?N}) = ?N" by (simp add: card_image)
  next
    fix q assume q: "q \<notin> ?path ` {1..?N}"
    show "fst ?save q = fs q"
      unfolding sv
    proof (rule write_sections_other [OF ok])
      fix k assume "k < ?N"
      then have "1 + k \<in> {1..?N}" by simp
      with q have "q \<noteq> ?path (1 + k)" by blast
      then show "q \<noteq> os_path_join output_dir (section_filename base_name ?d (1 + k))"
        unfolding p .
    qed
  qed
qed

theorem section_files_witness:
  "snd (save_sections_to_files
          \<lparr>makedirs_error = (\<lambda>fs p. None), open_error = (\<lambda>fs p. None),
           write_error = (\<lambda>fs p c. None)\<rparr>
          [[97], [98], [99], [100], [101], [102], [103], [104], [105], [106]]
          (ustr ''out'') (ustr ''bk'') Map.empty) = (None :: unit error option)
     \<and> fst (save_sections_to_files
          \<lparr>makedirs_error = (\<lambda>fs p. None), open_error = (\<lambda>fs p. None),
           write_error = (\<lambda>fs p c. None)\<rparr>
          [[97], [98], [99], [100], [101], [102], [103], [104], [105], [106]]
          (ustr ''out'') (ustr ''bk'') Map.empty :: filesystem \<times> unit error option)
         (ustr ''out/bk_section_01.txt'') = Some [97]
     \<and> fst (save_sections_to_files
          \<lparr>makedirs_error = (\<lambda>fs p. None), open_error = (\<lambda>fs p. None),
           write_error = (\<lambda>fs p c. None)\<rparr>
          [[97], [98], [99], [100], [101], [102], [103], [104], [105], [106]]
          (ustr ''out'') (ustr ''bk'') Map.empty :: filesystem \<times> unit error option)
         (ustr ''out/bk_section_10.txt'') = Some [106]"
proof -
  let ?env = "\<lparr>makedirs_error = (\<lambda>fs p. None), open_error = (\<lambda>fs p. None),
               write_error = (\<lambda>fs p c. None)\<rparr> :: unit os_env"
  let ?secs = "[[97], [98], [99], [100], [101], [102], [103], [104], [105], [106::nat]]"
  have mk: "os_makedirs ?env Map.empty (ustr ''out'') = None"
    by (simp add: os_makedirs_def ustr_def)
  have ok: "snd (save_sections_to_files ?env ?secs (ustr ''out'') (ustr ''bk'') Map.empty) = None"
    unfolding save_sections_to_files_def mk option.case Let_def
    by (rule write_sections_no_error) simp_all
  have p1: "os_path_join (ustr ''out'')
              (ustr ''bk'' @ ustr ''_section_'' @ zfill (length (str_nat 10)) (str_nat 1)
                 @ ustr ''.txt'') = ustr ''out/bk_section_01.txt''"
    by (simp add: str_nat.simps zfill_def os_path_join_def ustr_def)
  have p10: "os_path_join (ustr ''out'')
              (ustr ''bk'' @ ustr ''_section_'' @ zfill (length (str_nat 10)) (str_nat 10)
                 @ ustr ''.txt'') = ustr ''out/bk_section_10.txt''"
    by (simp add: str_nat.simps zfill_def os_path_join_def ustr_def)
  have m: "(1::nat) \<in> {1..10}" "(10::nat) \<in> {1..10}" by simp_all
  have len: "length ?secs = 10" by simp
  note all = section_files [OF ok, unfolded Let_def len, THEN conjunct1]
  note f1 = bspec [OF all m(1), THEN conjunct2, THEN conjunct2, THEN conjunct2, unfolded p1]
  note f10 = bspec [OF all m(2), THEN conjunct2, THEN conjunct2, THEN conjunct2, unfolded p10]
  from ok f1 f10 show ?thesis by simp
qed

end
